theory Spec2Isabelle
  imports Main
begin

section \<open>JavaScript strings\<close>

text \<open>
  A JavaScript string is a sequence of UTF-16 code units. A code unit is modelled as a
  natural number (the real ones are below 65536), a string as a list of them, so that
  every statement below quantifies over all strings the script can receive.
  \<open>js\<close> turns an ASCII literal into such a string.
\<close>

type_synonym jschar = nat
type_synonym jsstring = "jschar list"

definition js :: "string \<Rightarrow> jsstring" where
  "js s = map of_char s"

text \<open>The character classes the script's regular expressions and \<open>trim\<close> use
  (no \<open>u\<close>, \<open>i\<close> or \<open>s\<close> flag is set in the source).\<close>

definition isLineTerminator :: "jschar \<Rightarrow> bool" where
  \<comment> \<open>LF, CR, U+2028, U+2029\<close>
  "isLineTerminator c = (c = 10 \<or> c = 13 \<or> c = 8232 \<or> c = 8233)"

definition isWhiteSpace :: "jschar \<Rightarrow> bool" where
  \<comment> \<open>\<open>\s\<close> and the characters \<open>trim\<close> strips: TAB, LF, VT, FF, CR, SP, NBSP, U+1680,
      U+2000..U+200A, U+2028, U+2029, U+202F, U+205F, U+3000, U+FEFF\<close>
  "isWhiteSpace c =
     (c = 9 \<or> c = 10 \<or> c = 11 \<or> c = 12 \<or> c = 13 \<or> c = 32 \<or> c = 160 \<or> c = 5760 \<or>
      (8192 \<le> c \<and> c \<le> 8202) \<or> c = 8232 \<or> c = 8233 \<or> c = 8239 \<or> c = 8287 \<or>
      c = 12288 \<or> c = 65279)"

definition isDigit :: "jschar \<Rightarrow> bool" where
  \<comment> \<open>\<open>\d\<close>\<close>
  "isDigit c = (48 \<le> c \<and> c \<le> 57)"

definition isWordChar :: "jschar \<Rightarrow> bool" where
  \<comment> \<open>\<open>\w\<close>\<close>
  "isWordChar c = ((97 \<le> c \<and> c \<le> 122) \<or> (65 \<le> c \<and> c \<le> 90) \<or> isDigit c \<or> c = 95)"

definition isKeyChar :: "jschar \<Rightarrow> bool" where
  \<comment> \<open>\<open>[\w-]\<close>\<close>
  "isKeyChar c = (isWordChar c \<or> c = 45)"

definition notComma :: "jschar \<Rightarrow> bool" where
  \<comment> \<open>\<open>[^,]\<close>\<close>
  "notComma c = (c \<noteq> 44)"

definition notQuote :: "jschar \<Rightarrow> bool" where
  \<comment> \<open>\<open>[^"]\<close>\<close>
  "notQuote c = (c \<noteq> 34)"

definition anyChar :: "jschar \<Rightarrow> bool" where
  \<comment> \<open>\<open>.\<close>: everything but a line terminator\<close>
  "anyChar c = (\<not> isLineTerminator c)"

definition trim :: "jsstring \<Rightarrow> jsstring" where
  "trim s = rev (dropWhile isWhiteSpace (rev (dropWhile isWhiteSpace s)))"

definition startsWith :: "jsstring \<Rightarrow> jsstring \<Rightarrow> bool" where
  "startsWith s p = (take (length p) s = p)"

definition toLowerCase :: "jsstring \<Rightarrow> jsstring" where
  \<comment> \<open>The script lower-cases attribute keys only, which consist of \<open>[\w-]\<close> characters;
      on those \<open>toLowerCase\<close> maps A..Z to a..z and keeps the rest.\<close>
  "toLowerCase s = map (\<lambda>c. if 65 \<le> c \<and> c \<le> 90 then c + 32 else c) s"

fun js_split :: "jsstring \<Rightarrow> jsstring list" where
  \<comment> \<open>\<open>m3uText.split('\n')\<close>\<close>
  "js_split [] = [[]]"
| "js_split (c # cs) =
     (if c = 10 then [] # js_split cs
      else (case js_split cs of [] \<Rightarrow> [[c]] | l # ls \<Rightarrow> (c # l) # ls))"

section \<open>Regular expressions\<close>

text \<open>
  The fragment of JavaScript regular expressions the script uses: literals, greedy
  \<open>?\<close>, greedy \<open>*\<close> and \<open>+\<close> and lazy \<open>*?\<close> over a character class, capturing groups
  and concatenation. Matching is the backtracking search of the language: a greedy
  quantifier tries the longer match first, a lazy one the shorter, and the first
  alternative whose continuation succeeds wins.
\<close>

datatype re =
    Lit jsstring
  | Opt re
  | Star "jschar \<Rightarrow> bool"
  | Plus "jschar \<Rightarrow> bool"
  | StarLazy "jschar \<Rightarrow> bool"
  | Grp nat re
  | Seq re re

fun seqs :: "re list \<Rightarrow> re" where
  "seqs [] = Lit []"
| "seqs [r] = r"
| "seqs (r # rs) = Seq r (seqs rs)"

type_synonym captures = "nat \<Rightarrow> jsstring option"
type_synonym mstate = "jsstring \<times> captures"

fun lit :: "jsstring \<Rightarrow> jsstring \<Rightarrow> jsstring option" where
  "lit [] s = Some s"
| "lit (c # w) [] = None"
| "lit (c # w) (d # s) = (if c = d then lit w s else None)"

fun star_greedy :: "(jschar \<Rightarrow> bool) \<Rightarrow> (jsstring \<Rightarrow> mstate option) \<Rightarrow> jsstring \<Rightarrow> mstate option" where
  "star_greedy P k [] = k []"
| "star_greedy P k (c # cs) =
     (if P c then (case star_greedy P k cs of Some r \<Rightarrow> Some r | None \<Rightarrow> k (c # cs))
      else k (c # cs))"

fun star_lazy :: "(jschar \<Rightarrow> bool) \<Rightarrow> (jsstring \<Rightarrow> mstate option) \<Rightarrow> jsstring \<Rightarrow> mstate option" where
  "star_lazy P k [] = k []"
| "star_lazy P k (c # cs) =
     (case k (c # cs) of Some r \<Rightarrow> Some r
      | None \<Rightarrow> if P c then star_lazy P k cs else None)"

definition plus_greedy :: "(jschar \<Rightarrow> bool) \<Rightarrow> (jsstring \<Rightarrow> mstate option) \<Rightarrow> jsstring \<Rightarrow> mstate option" where
  "plus_greedy P k s = (case s of [] \<Rightarrow> None | c # cs \<Rightarrow> if P c then star_greedy P k cs else None)"

text \<open>\<open>rmatch r k (s, caps)\<close> matches \<open>r\<close> at the start of \<open>s\<close> and hands the rest of
  the input and the captures to the continuation \<open>k\<close>; \<open>None\<close> is failure, on which
  the caller backtracks.\<close>

fun rmatch :: "re \<Rightarrow> (mstate \<Rightarrow> mstate option) \<Rightarrow> mstate \<Rightarrow> mstate option" where
  "rmatch (Lit w) k st = (case lit w (fst st) of None \<Rightarrow> None | Some rest \<Rightarrow> k (rest, snd st))"
| "rmatch (Opt r) k st = (case rmatch r k st of Some res \<Rightarrow> Some res | None \<Rightarrow> k st)"
| "rmatch (Star P) k st = star_greedy P (\<lambda>rest. k (rest, snd st)) (fst st)"
| "rmatch (Plus P) k st = plus_greedy P (\<lambda>rest. k (rest, snd st)) (fst st)"
| "rmatch (StarLazy P) k st = star_lazy P (\<lambda>rest. k (rest, snd st)) (fst st)"
| "rmatch (Grp n r) k st =
     rmatch r (\<lambda>st'. k (fst st', (snd st')(n \<mapsto> take (length (fst st) - length (fst st')) (fst st)))) st"
| "rmatch (Seq a b) k st = rmatch a (\<lambda>st'. rmatch b k st') st"

text \<open>The leftmost match: the first start position at which the expression matches.
  The result is the input left after the match and the captures.\<close>

fun search :: "re \<Rightarrow> jsstring \<Rightarrow> mstate option" where
  "search r [] = rmatch r Some ([], Map.empty)"
| "search r (c # cs) =
     (case rmatch r Some (c # cs, Map.empty) of Some st \<Rightarrow> Some st | None \<Rightarrow> search r cs)"

definition regex_match :: "re \<Rightarrow> jsstring \<Rightarrow> captures option" where
  \<comment> \<open>\<open>str.match(re)\<close> for an expression without the \<open>g\<close> flag: the captures, or null\<close>
  "regex_match r s = map_option snd (search r s)"

definition regex_exec :: "re \<Rightarrow> jsstring \<Rightarrow> nat \<Rightarrow> captures option \<times> nat" where
  \<comment> \<open>\<open>re.exec(str)\<close> for an expression with the \<open>g\<close> flag, whose \<open>lastIndex\<close> is the
      third argument: the search starts there; the result comes with the new
      \<open>lastIndex\<close>, the end of the match, or 0 after a failure\<close>
  "regex_exec r s li =
     (if length s < li then (None, 0)
      else (case search r (drop li s) of
              None \<Rightarrow> (None, 0)
            | Some st \<Rightarrow> (Some (snd st), length s - length (fst st))))"

text \<open>The expressions of the source. \<open>attributeRegex\<close> and \<open>titleRegex\<close> are those of the
  first copy of the script (lines 41 and 90), \<open>extinfRegex\<close> that of the second (line 541);
  \<open>attributeValueRegex\<close> is the same in both (lines 42 and 543).\<close>

definition attributeRegex :: re where
  \<comment> \<open>\<open>/#EXTINF:-?\d+ ?(?:([^,]+))?,?(.*)/\<close>\<close>
  "attributeRegex =
     seqs [Lit (js ''#EXTINF:''), Opt (Lit (js ''-'')), Plus isDigit, Opt (Lit (js '' '')),
           Opt (Grp 1 (Plus notComma)), Opt (Lit (js '','')), Grp 2 (Star anyChar)]"

definition titleRegex :: re where
  \<comment> \<open>\<open>/#EXTINF:-?\d+,?(.*)/\<close>\<close>
  "titleRegex =
     seqs [Lit (js ''#EXTINF:''), Opt (Lit (js ''-'')), Plus isDigit, Opt (Lit (js '','')),
           Grp 1 (Star anyChar)]"

definition extinfRegex :: re where
  \<comment> \<open>\<open>/#EXTINF:-?\d+(?:\s+(.*?))?,(.*)/\<close>\<close>
  "extinfRegex =
     seqs [Lit (js ''#EXTINF:''), Opt (Lit (js ''-'')), Plus isDigit,
           Opt (Seq (Plus isWhiteSpace) (Grp 1 (StarLazy anyChar))),
           Lit (js '',''), Grp 2 (Star anyChar)]"

definition attributeValueRegex :: re where
  \<comment> \<open>\<open>/([\w-]+)\s*=\s*"([^"]*)"/g\<close>\<close>
  "attributeValueRegex =
     seqs [Grp 1 (Plus isKeyChar), Star isWhiteSpace, Lit (js ''=''), Star isWhiteSpace,
           Lit [34], Grp 2 (Star notQuote), Lit [34]]"

section \<open>Every match consumes input\<close>

text \<open>The least number of characters a match of an expression consumes.\<close>

fun minlen :: "re \<Rightarrow> nat" where
  "minlen (Lit w) = length w"
| "minlen (Opt r) = 0"
| "minlen (Star P) = 0"
| "minlen (Plus P) = 1"
| "minlen (StarLazy P) = 0"
| "minlen (Grp n r) = minlen r"
| "minlen (Seq a b) = minlen a + minlen b"

lemma lit_shrinks: "lit w s = Some rest \<Longrightarrow> length rest + length w = length s"
  by (induction w s rule: lit.induct) (auto split: if_splits)

lemma star_greedy_shrinks:
  "star_greedy P k s = Some res \<Longrightarrow> \<exists>rest. k rest = Some res \<and> length rest \<le> length s"
proof (induction s)
  case Nil
  then show ?case by auto
next
  case (Cons c cs)
  show ?case
  proof (cases "star_greedy P k cs")
    case None
    with Cons.prems have "k (c # cs) = Some res" by (simp split: if_splits)
    then show ?thesis by auto
  next
    case (Some r)
    show ?thesis
    proof (cases "P c")
      case True
      with Some Cons.prems have "star_greedy P k cs = Some res" by simp
      from Cons.IH [OF this] show ?thesis by auto
    next
      case False
      with Cons.prems have "k (c # cs) = Some res" by simp
      then show ?thesis by auto
    qed
  qed
qed

lemma star_lazy_shrinks:
  "star_lazy P k s = Some res \<Longrightarrow> \<exists>rest. k rest = Some res \<and> length rest \<le> length s"
proof (induction s)
  case Nil
  then show ?case by auto
next
  case (Cons c cs)
  show ?case
  proof (cases "k (c # cs)")
    case None
    with Cons.prems have "star_lazy P k cs = Some res" by (auto split: if_splits)
    from Cons.IH [OF this] show ?thesis by auto
  next
    case (Some r)
    with Cons.prems show ?thesis by auto
  qed
qed

lemma plus_greedy_shrinks:
  "plus_greedy P k s = Some res \<Longrightarrow> \<exists>rest. k rest = Some res \<and> length rest + 1 \<le> length s"
  by (cases s) (auto simp: plus_greedy_def split: if_splits dest!: star_greedy_shrinks)

lemma rmatch_shrinks:
  "rmatch r k st = Some res \<Longrightarrow>
   \<exists>st'. k st' = Some res \<and> length (fst st') + minlen r \<le> length (fst st)"
proof (induction r arbitrary: k st)
  case (Lit w)
  then obtain rest where 1: "lit w (fst st) = Some rest" and 2: "k (rest, snd st) = Some res"
    by (auto split: option.splits)
  from lit_shrinks [OF 1] have "length (fst (rest, snd st)) + minlen (Lit w) \<le> length (fst st)"
    by simp
  with 2 show ?case by blast
next
  case (Opt r)
  show ?case
  proof (cases "rmatch r k st")
    case None
    with Opt.prems have "k st = Some res" by simp
    then show ?thesis by (intro exI [of _ st]) simp
  next
    case (Some a)
    with Opt.prems have "rmatch r k st = Some res" by simp
    from Opt.IH [OF this] obtain st' where
      "k st' = Some res" "length (fst st') + minlen r \<le> length (fst st)" by blast
    then show ?thesis by (intro exI [of _ st']) simp
  qed
next
  case (Star P)
  then have "star_greedy P (\<lambda>rest. k (rest, snd st)) (fst st) = Some res" by simp
  from star_greedy_shrinks [OF this] obtain rest where
    "k (rest, snd st) = Some res" "length rest \<le> length (fst st)" by blast
  then show ?case by (intro exI [of _ "(rest, snd st)"]) simp
next
  case (Plus P)
  then have "plus_greedy P (\<lambda>rest. k (rest, snd st)) (fst st) = Some res" by simp
  from plus_greedy_shrinks [OF this] obtain rest where
    "k (rest, snd st) = Some res" "length rest + 1 \<le> length (fst st)" by blast
  then show ?case by (intro exI [of _ "(rest, snd st)"]) simp
next
  case (StarLazy P)
  then have "star_lazy P (\<lambda>rest. k (rest, snd st)) (fst st) = Some res" by simp
  from star_lazy_shrinks [OF this] obtain rest where
    "k (rest, snd st) = Some res" "length rest \<le> length (fst st)" by blast
  then show ?case by (intro exI [of _ "(rest, snd st)"]) simp
next
  case (Grp n r)
  let ?k = "\<lambda>st'. k (fst st', (snd st')(n \<mapsto> take (length (fst st) - length (fst st')) (fst st)))"
  from Grp.prems have "rmatch r ?k st = Some res" by simp
  from Grp.IH [OF this] obtain st' where
    1: "?k st' = Some res" and 2: "length (fst st') + minlen r \<le> length (fst st)" by blast
  let ?st = "(fst st', (snd st')(n \<mapsto> take (length (fst st) - length (fst st')) (fst st)))"
  from 1 2 have "k ?st = Some res \<and> length (fst ?st) + minlen (Grp n r) \<le> length (fst st)"
    by simp
  then show ?case by blast
next
  case (Seq a b)
  from Seq.prems have "rmatch a (\<lambda>st'. rmatch b k st') st = Some res" by simp
  from Seq.IH(1) [OF this] obtain st1 where
    1: "rmatch b k st1 = Some res" and 2: "length (fst st1) + minlen a \<le> length (fst st)"
    by blast
  from Seq.IH(2) [OF 1] obtain st2 where
    "k st2 = Some res" and "length (fst st2) + minlen b \<le> length (fst st1)"
    by blast
  with 2 show ?case by (intro exI [of _ st2]) simp
qed

lemma search_shrinks: "search r s = Some st \<Longrightarrow> length (fst st) + minlen r \<le> length s"
proof (induction s)
  case Nil
  then show ?case by (auto dest!: rmatch_shrinks)
next
  case (Cons c cs)
  then show ?case by (fastforce split: option.splits dest!: rmatch_shrinks)
qed

lemma minlen_attributeValueRegex: "minlen attributeValueRegex = 4"
  by (simp add: attributeValueRegex_def js_def)

lemma regex_exec_advances:
  assumes "regex_exec attributeValueRegex s li = (Some m, li')"
  shows "li < li' \<and> li' \<le> length s"
proof -
  from assms obtain st where le: "li \<le> length s"
    and st: "search attributeValueRegex (drop li s) = Some st"
    and li': "li' = length s - length (fst st)"
    by (auto simp: regex_exec_def split: if_splits option.splits)
  from search_shrinks [OF st] have "length (fst st) + 4 \<le> length s - li"
    by (simp add: minlen_attributeValueRegex)
  with le li' show ?thesis by arith
qed

lemma regex_exec_fails: "regex_exec r s li = (None, li') \<Longrightarrow> li' = 0"
  by (auto simp: regex_exec_def split: if_splits option.splits)

section \<open>Channels\<close>

text \<open>The channel object of the script (lines 50-57 and 552-559). \<open>null\<close> is \<open>None\<close>;
  \<open>rawAttributes\<close> is an object used as a dictionary from keys to values.\<close>

record channel =
  title :: jsstring
  streamUrl :: jsstring
  logo :: "jsstring option"
  groupTitle :: jsstring
  tvgId :: "jsstring option"
  rawAttributes :: "jsstring \<rightharpoonup> jsstring"

definition newChannel :: channel where
  "newChannel =
     \<lparr>title = [], streamUrl = [], logo = None, groupTitle = js ''Uncategorized'',
      tvgId = None, rawAttributes = Map.empty\<rparr>"

text \<open>What the script can raise: a method call on \<open>undefined\<close> (\<open>attrMatch[1].toLowerCase()\<close>
  when group 1 took no part in the match). A group 2 that took no part would put
  \<open>undefined\<close> into a string field; the model reports that as an error of its own, so that
  a result \<open>Inr\<close> has strings in all its fields.\<close>

datatype error = TypeError | UndefinedValue

text \<open>The body of the attribute loop (lines 67-83 and 569-585). An assignment to the key
  \<open>__proto__\<close> of a plain object with a string value changes nothing: the setter of
  \<open>Object.prototype\<close> ignores a value that is neither an object nor null.\<close>

definition set_attribute :: "jsstring \<Rightarrow> jsstring \<Rightarrow> channel \<Rightarrow> channel" where
  "set_attribute key val ch =
     (let ch = (if key = js ''__proto__'' then ch
                else ch\<lparr>rawAttributes := (rawAttributes ch)(key \<mapsto> val)\<rparr>);
          ch = (if key = js ''tvg-id'' then ch\<lparr>tvgId := Some val\<rparr> else ch);
          ch = (if key = js ''tvg-name'' then ch\<lparr>title := val\<rparr> else ch);
          ch = (if key = js ''tvg-logo'' then ch\<lparr>logo := Some val\<rparr> else ch);
          ch = (if key = js ''group-title'' then ch\<lparr>groupTitle := val\<rparr> else ch)
      in ch)"

text \<open>The loop \<open>while ((attrMatch = attributeValueRegex.exec(attributesString)) !== null)\<close>.
  The expression has the \<open>g\<close> flag, so the object carries \<open>lastIndex\<close> from one \<open>exec\<close>
  to the next; the loop returns the channel and the \<open>lastIndex\<close> it leaves behind.\<close>

function attribute_loop :: "jsstring \<Rightarrow> nat \<Rightarrow> channel \<Rightarrow> error + channel \<times> nat" where
  "attribute_loop attributesString li ch =
     (case regex_exec attributeValueRegex attributesString li of
        (None, li') \<Rightarrow> Inr (ch, li')
      | (Some attrMatch, li') \<Rightarrow>
          (case attrMatch 1 of
             None \<Rightarrow> Inl TypeError
           | Some g1 \<Rightarrow>
               (case attrMatch 2 of
                  None \<Rightarrow> Inl UndefinedValue
                | Some val \<Rightarrow>
                    attribute_loop attributesString li' (set_attribute (toLowerCase g1) val ch))))"
  by pat_completeness auto
termination
proof (relation "measure (\<lambda>(s, li, ch). length s - li)")
  show "wf (measure (\<lambda>(s, li, ch). length s - li))" by simp
next
  fix attributesString li ch x y x2 z x2a
  assume "(x, y) = regex_exec attributeValueRegex attributesString li" "x = Some x2"
  then have "regex_exec attributeValueRegex attributesString li = (Some x2, y)" by simp
  from regex_exec_advances [OF this]
  show "((attributesString, y, set_attribute (toLowerCase z) x2a ch), attributesString, li, ch)
      \<in> measure (\<lambda>(s, li, ch). length s - li)"
    by auto
qed

declare attribute_loop.simps [simp del]

section \<open>The parser\<close>

text \<open>
  The source holds two copies of the script, an earlier one (\<open>parseM3U\<close> at lines 33-111)
  and a revised one (\<open>parseM3U\<close> at lines 533-616). They are two versions of one script
  and cannot be loaded together (both declare the constant \<open>M3U_URL\<close>); the revised copy
  is the one the specification describes, with its placeholder title, its drop of a
  malformed metadata line and its trimming of every line; it is modelled as \<open>parseM3U\<close>, the earlier copy as \<open>parseM3U_first\<close>.

  The state of the loop over the lines: the array \<open>channels\<close>, the pending
  \<open>currentChannel\<close> (\<open>None\<close> is null) and \<open>lastIndex\<close> of \<open>attributeValueRegex\<close>,
  which is created once per call and used for every line.
\<close>

record pstate =
  channels :: "channel list"
  currentChannel :: "channel option"
  lastIndex :: nat

definition initial :: pstate where
  "initial = \<lparr>channels = [], currentChannel = None, lastIndex = 0\<rparr>"

definition validUrl :: "jsstring \<Rightarrow> bool" where
  \<comment> \<open>the check of lines 101 and 607\<close>
  "validUrl u = (u \<noteq> [] \<and> (startsWith u (js ''http://'') \<or> startsWith u (js ''https://'')))"

subsection \<open>The revised copy (lines 533-616)\<close>

text \<open>The branch for a line that starts with \<open>#EXTINF\<close> (lines 551-600): the new pending
  channel and the new \<open>lastIndex\<close>.\<close>

definition extinf_line :: "nat \<Rightarrow> jsstring \<Rightarrow> error + channel option \<times> nat" where
  "extinf_line li trimmedLine =
     (case regex_match extinfRegex trimmedLine of
        Some extinfMatch \<Rightarrow>
          (let attributesString = (case extinfMatch 1 of None \<Rightarrow> [] | Some a \<Rightarrow> if a = [] then [] else a);
               titleString = (case extinfMatch 2 of None \<Rightarrow> [] | Some t \<Rightarrow> if t = [] then [] else trim t)
           in case attribute_loop attributesString li newChannel of
                Inl e \<Rightarrow> Inl e
              | Inr (ch, li') \<Rightarrow>
                  (let ch = (if title ch = [] then ch\<lparr>title := titleString\<rparr> else ch);
                       ch = (if title ch = [] then ch\<lparr>title := js ''Untitled Channel''\<rparr> else ch)
                   in Inr (Some ch, li')))
      | None \<Rightarrow> Inr (None, li))"

text \<open>The branch for a line that starts with \<open>http\<close> while a channel is pending
  (lines 602-613).\<close>

definition url_line :: "pstate \<Rightarrow> channel \<Rightarrow> jsstring \<Rightarrow> pstate" where
  "url_line st cur trimmedLine =
     (let ch = cur\<lparr>streamUrl := trimmedLine\<rparr>
      in st\<lparr>channels := (if validUrl (streamUrl ch) then channels st @ [ch] else channels st),
            currentChannel := None\<rparr>)"

text \<open>One iteration of the loop over the lines (lines 545-614).\<close>

definition parse_line :: "pstate \<Rightarrow> jsstring \<Rightarrow> error + pstate" where
  "parse_line st line =
     (let trimmedLine = trim line in
      if trimmedLine = [] \<or> startsWith trimmedLine (js ''#EXTM3U'') then Inr st
      else if startsWith trimmedLine (js ''#EXTINF'') then
        (case extinf_line (lastIndex st) trimmedLine of
           Inl e \<Rightarrow> Inl e
         | Inr (cur, li) \<Rightarrow> Inr (st\<lparr>currentChannel := cur, lastIndex := li\<rparr>))
      else if startsWith trimmedLine (js ''http'') then
        (case currentChannel st of
           Some cur \<Rightarrow> Inr (url_line st cur trimmedLine)
         | None \<Rightarrow> Inr st)
      else Inr st)"

fun parse_lines :: "pstate \<Rightarrow> jsstring list \<Rightarrow> error + pstate" where
  "parse_lines st [] = Inr st"
| "parse_lines st (line # lines) =
     (case parse_line st line of Inl e \<Rightarrow> Inl e | Inr st' \<Rightarrow> parse_lines st' lines)"

definition parseM3U :: "jsstring \<Rightarrow> error + channel list" where
  "parseM3U m3uText =
     (case parse_lines initial (js_split m3uText) of
        Inl e \<Rightarrow> Inl e
      | Inr st \<Rightarrow> Inr (channels st))"

subsection \<open>The earlier copy (lines 33-111)\<close>

text \<open>\<open>exec\<close> turns its argument into a string: \<open>undefined\<close>, which \<open>extinfMatch[1]\<close> is when
  group 1 took no part, becomes the string \<open>undefined\<close>.\<close>

definition extinf_line_first :: "nat \<Rightarrow> jsstring \<Rightarrow> error + channel option \<times> nat" where
  "extinf_line_first li line =
     (case regex_match attributeRegex line of
        Some extinfMatch \<Rightarrow>
          (let attributesString = (case extinfMatch 1 of None \<Rightarrow> js ''undefined'' | Some a \<Rightarrow> a);
               titleString = (case extinfMatch 2 of None \<Rightarrow> [] | Some t \<Rightarrow> if t = [] then [] else trim t)
           in case attribute_loop attributesString li newChannel of
                Inl e \<Rightarrow> Inl e
              | Inr (ch, li') \<Rightarrow>
                  Inr (Some (if title ch = [] then ch\<lparr>title := titleString\<rparr> else ch), li'))
      | None \<Rightarrow>
          (case regex_match titleRegex line of
             Some titleMatch \<Rightarrow>
               (case titleMatch 1 of
                  Some t \<Rightarrow>
                    if t \<noteq> [] then Inr (Some (newChannel\<lparr>title := trim t\<rparr>), li)
                    else Inr (Some newChannel, li)
                | None \<Rightarrow> Inr (Some newChannel, li))
           | None \<Rightarrow> Inr (Some newChannel, li)))"

definition url_line_first :: "pstate \<Rightarrow> channel \<Rightarrow> jsstring \<Rightarrow> pstate" where
  "url_line_first st cur line =
     (let ch = cur\<lparr>streamUrl := trim line\<rparr>
      in st\<lparr>channels := (if validUrl (streamUrl ch) then channels st @ [ch] else channels st),
            currentChannel := None\<rparr>)"

definition parse_line_first :: "pstate \<Rightarrow> jsstring \<Rightarrow> error + pstate" where
  "parse_line_first st line =
     (if trim line = [] \<or> startsWith line (js ''#EXTM3U'') then Inr st
      else if startsWith line (js ''#EXTINF'') then
        (case extinf_line_first (lastIndex st) line of
           Inl e \<Rightarrow> Inl e
         | Inr (cur, li) \<Rightarrow> Inr (st\<lparr>currentChannel := cur, lastIndex := li\<rparr>))
      else if startsWith line (js ''http'') then
        (case currentChannel st of
           Some cur \<Rightarrow> Inr (url_line_first st cur line)
         | None \<Rightarrow> Inr st)
      else Inr st)"

fun parse_lines_first :: "pstate \<Rightarrow> jsstring list \<Rightarrow> error + pstate" where
  "parse_lines_first st [] = Inr st"
| "parse_lines_first st (line # lines) =
     (case parse_line_first st line of Inl e \<Rightarrow> Inl e | Inr st' \<Rightarrow> parse_lines_first st' lines)"

definition parseM3U_first :: "jsstring \<Rightarrow> error + channel list" where
  "parseM3U_first m3uText =
     (case parse_lines_first initial (js_split m3uText) of
        Inl e \<Rightarrow> Inl e
      | Inr st \<Rightarrow> Inr (channels st))"

section \<open>The groups of a match\<close>

text \<open>The groups that take part in every match of an expression: those under no
  optional part.\<close>

fun sure :: "re \<Rightarrow> nat set" where
  "sure (Grp n r) = insert n (sure r)"
| "sure (Seq a b) = sure a \<union> sure b"
| "sure r = {}"

definition keeps :: "nat set \<Rightarrow> captures \<Rightarrow> captures \<Rightarrow> bool" where
  "keeps N c c' = (\<forall>n. n \<in> N \<or> c n \<noteq> None \<longrightarrow> c' n \<noteq> None)"

lemma keeps_refl: "keeps {} c c"
  by (simp add: keeps_def)

lemma keeps_trans: "keeps A c c' \<Longrightarrow> keeps B c' c'' \<Longrightarrow> keeps (A \<union> B) c c''"
  by (auto simp: keeps_def)

lemma keeps_upd: "keeps A c c' \<Longrightarrow> keeps (insert n A) c (c'(n \<mapsto> v))"
  by (auto simp: keeps_def)

lemma rmatch_captures:
  "rmatch r k st = Some res \<Longrightarrow> \<exists>st'. k st' = Some res \<and> keeps (sure r) (snd st) (snd st')"
proof (induction r arbitrary: k st)
  case (Lit w)
  then obtain rest where "k (rest, snd st) = Some res"
    by (auto split: option.splits)
  then show ?case by (intro exI [of _ "(rest, snd st)"]) (simp add: keeps_refl)
next
  case (Opt r)
  show ?case
  proof (cases "rmatch r k st")
    case None
    with Opt.prems have "k st = Some res" by simp
    then show ?thesis by (intro exI [of _ st]) (simp add: keeps_refl)
  next
    case (Some a)
    with Opt.prems have "rmatch r k st = Some res" by simp
    from Opt.IH [OF this] obtain st' where
      "k st' = Some res" "keeps (sure r) (snd st) (snd st')" by blast
    then show ?thesis by (intro exI [of _ st']) (auto simp: keeps_def)
  qed
next
  case (Star P)
  then have "star_greedy P (\<lambda>rest. k (rest, snd st)) (fst st) = Some res" by simp
  from star_greedy_shrinks [OF this] obtain rest where
    "k (rest, snd st) = Some res" by blast
  then show ?case by (intro exI [of _ "(rest, snd st)"]) (simp add: keeps_refl)
next
  case (Plus P)
  then have "plus_greedy P (\<lambda>rest. k (rest, snd st)) (fst st) = Some res" by simp
  from plus_greedy_shrinks [OF this] obtain rest where
    "k (rest, snd st) = Some res" by blast
  then show ?case by (intro exI [of _ "(rest, snd st)"]) (simp add: keeps_refl)
next
  case (StarLazy P)
  then have "star_lazy P (\<lambda>rest. k (rest, snd st)) (fst st) = Some res" by simp
  from star_lazy_shrinks [OF this] obtain rest where
    "k (rest, snd st) = Some res" by blast
  then show ?case by (intro exI [of _ "(rest, snd st)"]) (simp add: keeps_refl)
next
  case (Grp n r)
  let ?k = "\<lambda>st'. k (fst st', (snd st')(n \<mapsto> take (length (fst st) - length (fst st')) (fst st)))"
  from Grp.prems have "rmatch r ?k st = Some res" by simp
  from Grp.IH [OF this] obtain st' where
    1: "?k st' = Some res" and 2: "keeps (sure r) (snd st) (snd st')" by blast
  let ?st = "(fst st', (snd st')(n \<mapsto> take (length (fst st) - length (fst st')) (fst st)))"
  from 1 keeps_upd [OF 2] have "k ?st = Some res \<and> keeps (sure (Grp n r)) (snd st) (snd ?st)"
    by simp
  then show ?case by blast
next
  case (Seq a b)
  from Seq.prems have "rmatch a (\<lambda>st'. rmatch b k st') st = Some res" by simp
  from Seq.IH(1) [OF this] obtain st1 where
    1: "rmatch b k st1 = Some res" and 2: "keeps (sure a) (snd st) (snd st1)"
    by blast
  from Seq.IH(2) [OF 1] obtain st2 where
    "k st2 = Some res" and "keeps (sure b) (snd st1) (snd st2)"
    by blast
  with 2 show ?case by (intro exI [of _ st2]) (simp add: keeps_trans)
qed

lemma search_captures: "search r s = Some st \<Longrightarrow> n \<in> sure r \<Longrightarrow> snd st n \<noteq> None"
proof (induction s)
  case Nil
  then have "rmatch r Some ([], Map.empty) = Some st" by simp
  from rmatch_captures [OF this] Nil.prems(2) show ?case by (auto simp: keeps_def)
next
  case (Cons c cs)
  show ?case
  proof (cases "rmatch r Some (c # cs, Map.empty)")
    case None
    with Cons show ?thesis by simp
  next
    case (Some a)
    with Cons.prems have "rmatch r Some (c # cs, Map.empty) = Some st" by simp
    from rmatch_captures [OF this] Cons.prems(2) show ?thesis by (auto simp: keeps_def)
  qed
qed

lemma sure_attributeValueRegex: "sure attributeValueRegex = {1, 2}"
  by (auto simp: attributeValueRegex_def)

lemma regex_exec_groups:
  assumes "regex_exec attributeValueRegex s li = (Some m, li')"
  shows "\<exists>g1 g2. m 1 = Some g1 \<and> m 2 = Some g2"
proof -
  from assms obtain st where st: "search attributeValueRegex (drop li s) = Some st"
    and m: "m = snd st"
    by (auto simp: regex_exec_def split: if_splits option.splits)
  from search_captures [OF st, of 1] search_captures [OF st, of 2] m
  show ?thesis by (auto simp: sure_attributeValueRegex)
qed

lemma attribute_loop_total: "\<exists>ch'. attribute_loop s li ch = Inr (ch', 0)"
proof (induction s li ch rule: attribute_loop.induct)
  case (1 s li ch)
  obtain m li' where ex: "regex_exec attributeValueRegex s li = (m, li')"
    by (cases "regex_exec attributeValueRegex s li")
  show ?case
  proof (cases m)
    case None
    with ex regex_exec_fails [of attributeValueRegex s li li'] show ?thesis
      by (subst attribute_loop.simps) simp
  next
    case (Some caps)
    with ex have ex': "regex_exec attributeValueRegex s li = (Some caps, li')" by simp
    from regex_exec_groups [OF ex'] obtain g1 g2 where g: "caps 1 = Some g1" "caps 2 = Some g2"
      by blast
    from "1.IH" [OF ex' [symmetric] refl g(1) g(2)]
    obtain ch' where "attribute_loop s li' (set_attribute (toLowerCase g1) g2 ch) = Inr (ch', 0)"
      by blast
    with ex' g show ?thesis
      by (subst attribute_loop.simps) simp
  qed
qed

subsection \<open>The keys\<close>

text \<open>The keys that \<open>toLowerCase\<close> is applied to consist of \<open>[\w-]\<close> characters: group 1 of
  \<open>attributeValueRegex\<close> holds what \<open>[\w-]+\<close> consumed, and the rest of the expression
  leaves group 1 alone.\<close>

fun groups :: "re \<Rightarrow> nat set" where
  "groups (Grp n r) = insert n (groups r)"
| "groups (Seq a b) = groups a \<union> groups b"
| "groups (Opt r) = groups r"
| "groups r = {}"

lemma rmatch_frame:
  "rmatch r k st = Some res \<Longrightarrow> n \<notin> groups r \<Longrightarrow>
   \<exists>st'. k st' = Some res \<and> snd st' n = snd st n"
proof (induction r arbitrary: k st)
  case (Lit w)
  then obtain rest where "k (rest, snd st) = Some res"
    by (auto split: option.splits)
  then show ?case by (intro exI [of _ "(rest, snd st)"]) simp
next
  case (Opt r)
  show ?case
  proof (cases "rmatch r k st")
    case None
    with Opt.prems have "k st = Some res" by simp
    then show ?thesis by (intro exI [of _ st]) simp
  next
    case (Some a)
    with Opt.prems have "rmatch r k st = Some res" "n \<notin> groups r" by simp_all
    from Opt.IH [OF this] show ?thesis .
  qed
next
  case (Star P)
  then have "star_greedy P (\<lambda>rest. k (rest, snd st)) (fst st) = Some res" by simp
  from star_greedy_shrinks [OF this] obtain rest where
    "k (rest, snd st) = Some res" by blast
  then show ?case by (intro exI [of _ "(rest, snd st)"]) simp
next
  case (Plus P)
  then have "plus_greedy P (\<lambda>rest. k (rest, snd st)) (fst st) = Some res" by simp
  from plus_greedy_shrinks [OF this] obtain rest where
    "k (rest, snd st) = Some res" by blast
  then show ?case by (intro exI [of _ "(rest, snd st)"]) simp
next
  case (StarLazy P)
  then have "star_lazy P (\<lambda>rest. k (rest, snd st)) (fst st) = Some res" by simp
  from star_lazy_shrinks [OF this] obtain rest where
    "k (rest, snd st) = Some res" by blast
  then show ?case by (intro exI [of _ "(rest, snd st)"]) simp
next
  case (Grp m r)
  let ?k = "\<lambda>st'. k (fst st', (snd st')(m \<mapsto> take (length (fst st) - length (fst st')) (fst st)))"
  from Grp.prems have "rmatch r ?k st = Some res" "n \<notin> groups r" "n \<noteq> m" by simp_all
  from Grp.IH [OF this(1,2)] obtain st' where
    1: "?k st' = Some res" and 2: "snd st' n = snd st n" by blast
  let ?st = "(fst st', (snd st')(m \<mapsto> take (length (fst st) - length (fst st')) (fst st)))"
  from 1 2 \<open>n \<noteq> m\<close> have "k ?st = Some res \<and> snd ?st n = snd st n" by simp
  then show ?case by blast
next
  case (Seq a b)
  from Seq.prems have "rmatch a (\<lambda>st'. rmatch b k st') st = Some res"
    "n \<notin> groups a" "n \<notin> groups b" by simp_all
  from Seq.IH(1) [OF this(1,2)] obtain st1 where
    1: "rmatch b k st1 = Some res" and 2: "snd st1 n = snd st n" by blast
  from Seq.IH(2) [OF 1 \<open>n \<notin> groups b\<close>] obtain st2 where
    "k st2 = Some res" and "snd st2 n = snd st1 n" by blast
  with 2 show ?case by (intro exI [of _ st2]) simp
qed

lemma star_greedy_consumed:
  "star_greedy P k s = Some res \<Longrightarrow>
   \<exists>pre rest. s = pre @ rest \<and> list_all P pre \<and> k rest = Some res"
proof (induction s)
  case Nil
  then show ?case by simp
next
  case (Cons c cs)
  show ?case
  proof (cases "P c \<and> star_greedy P k cs = Some res")
    case True
    with Cons.IH obtain pre rest where "cs = pre @ rest" "list_all P pre" "k rest = Some res"
      by blast
    with True show ?thesis by (intro exI [of _ "c # pre"] exI [of _ rest]) simp
  next
    case False
    with Cons.prems have "k (c # cs) = Some res"
      by (cases "star_greedy P k cs") (auto split: if_splits)
    then show ?thesis by (intro exI [of _ "[]"] exI [of _ "c # cs"]) simp
  qed
qed

lemma key_group:
  assumes "rmatch attributeValueRegex Some (s, caps) = Some res"
  shows "\<exists>g. snd res 1 = Some g \<and> list_all isKeyChar g"
proof -
  define rest_re where "rest_re = seqs [Star isWhiteSpace, Lit (js ''=''), Star isWhiteSpace,
           Lit [34], Grp 2 (Star notQuote), Lit [34]]"
  let ?k = "\<lambda>rest. rmatch rest_re Some (rest, caps(1 \<mapsto> take (length s - length rest) s))"
  have re: "attributeValueRegex = Seq (Grp 1 (Plus isKeyChar)) rest_re"
    by (simp add: attributeValueRegex_def rest_re_def)
  have g: "1 \<notin> groups rest_re" by (simp add: rest_re_def)
  from assms obtain c cs where s: "s = c # cs" "isKeyChar c" "star_greedy isKeyChar ?k cs = Some res"
    unfolding re by (cases s) (auto simp: plus_greedy_def split: if_splits)
  from star_greedy_consumed [OF s(3)] obtain pre rest where
    1: "cs = pre @ rest" "list_all isKeyChar pre" "?k rest = Some res" by blast
  from rmatch_frame [OF 1(3) g] have "snd res 1 = Some (take (length s - length rest) s)"
    by auto
  with s 1 show ?thesis by simp
qed

lemma search_key_group:
  "search attributeValueRegex s = Some st \<Longrightarrow> \<exists>g. snd st 1 = Some g \<and> list_all isKeyChar g"
proof (induction s)
  case Nil
  then have "rmatch attributeValueRegex Some ([], Map.empty) = Some st" by simp
  from key_group [OF this] show ?case .
next
  case (Cons c cs)
  show ?case
  proof (cases "rmatch attributeValueRegex Some (c # cs, Map.empty)")
    case None
    with Cons show ?thesis by simp
  next
    case (Some a)
    with Cons.prems have "rmatch attributeValueRegex Some (c # cs, Map.empty) = Some st" by simp
    from key_group [OF this] show ?thesis .
  qed
qed

lemma attribute_keys:
  assumes "regex_exec attributeValueRegex s li = (Some m, li')"
  shows "\<exists>g. m 1 = Some g \<and> list_all isKeyChar g"
proof -
  from assms obtain st where "search attributeValueRegex (drop li s) = Some st" "m = snd st"
    by (auto simp: regex_exec_def split: if_splits option.splits)
  with search_key_group [of "drop li s" st] show ?thesis by simp
qed

section \<open>The parser returns, and what it returns is well formed\<close>

definition channel_ok :: "channel \<Rightarrow> bool" where
  "channel_ok c =
     (title c \<noteq> [] \<and>
      (startsWith (streamUrl c) (js ''http://'') \<or> startsWith (streamUrl c) (js ''https://'')))"

definition state_ok :: "pstate \<Rightarrow> bool" where
  "state_ok st =
     (list_all channel_ok (channels st) \<and>
      (case currentChannel st of None \<Rightarrow> True | Some c \<Rightarrow> title c \<noteq> []) \<and>
      lastIndex st = 0)"

lemma placeholder_nonempty: "js ''Untitled Channel'' \<noteq> []"
  by (simp add: js_def)

lemma extinf_line_cases:
  "(regex_match extinfRegex t = None \<and> extinf_line li t = Inr (None, li)) \<or>
   (\<exists>m ch. regex_match extinfRegex t = Some m \<and> extinf_line li t = Inr (Some ch, 0) \<and> title ch \<noteq> [])"
proof (cases "regex_match extinfRegex t")
  case None
  then show ?thesis by (simp add: extinf_line_def)
next
  case (Some m)
  define a where "a = (case m 1 of None \<Rightarrow> [] | Some a \<Rightarrow> if a = [] then [] else a)"
  obtain ch' where "attribute_loop a li newChannel = Inr (ch', 0)"
    using attribute_loop_total by blast
  with Some show ?thesis
    by (simp add: extinf_line_def a_def Let_def placeholder_nonempty)
qed

lemma parse_line_ok:
  assumes "state_ok st"
  shows "\<exists>st'. parse_line st l = Inr st' \<and> state_ok st'"
proof -
  from extinf_line_cases [of "trim l" "lastIndex st"] assms
  have 1: "\<exists>cur. extinf_line (lastIndex st) (trim l) = Inr (cur, 0) \<and>
             (case cur of None \<Rightarrow> True | Some c \<Rightarrow> title c \<noteq> [])"
    by (auto simp: state_ok_def)
  show ?thesis
  proof (cases "currentChannel st")
    case None
    with 1 assms show ?thesis
      by (auto simp: parse_line_def Let_def state_ok_def)
  next
    case (Some cur)
    with assms have "title cur \<noteq> []" by (simp add: state_ok_def)
    with 1 Some assms show ?thesis
      by (auto simp: parse_line_def Let_def state_ok_def url_line_def validUrl_def channel_ok_def)
  qed
qed

lemma parse_lines_ok:
  "state_ok st \<Longrightarrow> \<exists>st'. parse_lines st ls = Inr st' \<and> state_ok st'"
proof (induction ls arbitrary: st)
  case Nil
  then show ?case by simp
next
  case (Cons l ls)
  from parse_line_ok [OF Cons.prems, of l] obtain st1 where
    1: "parse_line st l = Inr st1" and 2: "state_ok st1" by blast
  from Cons.IH [OF 2] 1 show ?case by simp
qed

lemma initial_ok: "state_ok initial"
  by (simp add: state_ok_def initial_def)

lemma parseM3U_ok: "\<exists>st. parse_lines initial (js_split s) = Inr st \<and> state_ok st \<and> parseM3U s = Inr (channels st)"
proof -
  from parse_lines_ok [OF initial_ok, of "js_split s"] obtain st where
    "parse_lines initial (js_split s) = Inr st" "state_ok st" by blast
  then show ?thesis by (simp add: parseM3U_def)
qed

text \<open>
  Claim C1. For every input string, every channel in the sequence \<open>parseM3U\<close> returns has
  a non-empty \<open>title\<close> and a \<open>streamUrl\<close> that begins with \<open>http://\<close> or \<open>https://\<close>
  (and the call does return a sequence).
\<close>

theorem parseM3U_invariants:
  "\<exists>chs. parseM3U m3uText = Inr chs \<and>
     list_all (\<lambda>c. title c \<noteq> [] \<and>
        (startsWith (streamUrl c) (js ''http://'') \<or> startsWith (streamUrl c) (js ''https://''))) chs"
proof -
  from parseM3U_ok [of m3uText] obtain st where
    "state_ok st" "parseM3U m3uText = Inr (channels st)" by blast
  then show ?thesis
    by (simp add: state_ok_def channel_ok_def [abs_def])
qed

text \<open>
  Claim C3. \<open>parseM3U\<close> is total: for every input string it returns a sequence of channels
  and raises nothing. The loops of the model end (the attribute loop by its termination
  proof), and no branch of it reaches an error.
\<close>

theorem parseM3U_total: "\<exists>chs. parseM3U m3uText = Inr chs"
  using parseM3U_ok [of m3uText] by blast

section \<open>Lines\<close>

lemma js_split_single: "10 \<notin> set a \<Longrightarrow> js_split a = [a]"
  by (induction a) auto

lemma js_split_append: "10 \<notin> set a \<Longrightarrow> js_split (a @ 10 # b) = a # js_split b"
  by (induction a) auto

lemma startsWith_Nil: "startsWith s [] = True"
  by (simp add: startsWith_def)

lemma startsWith_Cons:
  "startsWith s (c # p) = (case s of [] \<Rightarrow> False | d # s' \<Rightarrow> c = d \<and> startsWith s' p)"
  by (auto simp: startsWith_def split: list.splits)

lemmas startsWith_simps = startsWith_Nil startsWith_Cons

lemma startsWith_EXTINF:
  assumes "startsWith s (js ''#EXTINF'')"
  shows "s \<noteq> []" and "\<not> startsWith s (js ''#EXTM3U'')" and "\<not> startsWith s (js ''http'')"
  using assms by (auto simp: startsWith_simps js_def split: list.splits)

lemma startsWith_http:
  assumes "startsWith s (js ''http'')"
  shows "s \<noteq> []" and "\<not> startsWith s (js ''#EXTM3U'')" and "\<not> startsWith s (js ''#EXTINF'')"
  using assms by (auto simp: startsWith_simps js_def split: list.splits)

lemma validUrl_http: "validUrl u \<Longrightarrow> startsWith u (js ''http'')"
  by (auto simp: validUrl_def startsWith_simps js_def split: list.splits)

lemma pstate_same_lastIndex: "st\<lparr>currentChannel := c, lastIndex := lastIndex st\<rparr> = st\<lparr>currentChannel := c\<rparr>"
  by simp

text \<open>A line that starts with \<open>#EXTINF\<close> and in which \<open>extinfRegex\<close> finds no match emits
  no channel and leaves no pending entry; the URL line after it changes nothing.\<close>

lemma unmatched_extinf_dropped:
  assumes "startsWith (trim l) (js ''#EXTINF'')"
    and "regex_match extinfRegex (trim l) = None"
    and "startsWith (trim u) (js ''http'')"
  shows "parse_line st l = Inr (st\<lparr>currentChannel := None\<rparr>) \<and>
         parse_line (st\<lparr>currentChannel := None\<rparr>) u = Inr (st\<lparr>currentChannel := None\<rparr>) \<and>
         parse_lines st (l # u # ls) = parse_lines (st\<lparr>currentChannel := None\<rparr>) ls"
proof -
  from assms(2) have "extinf_line (lastIndex st) (trim l) = Inr (None, lastIndex st)"
    by (simp add: extinf_line_def)
  with startsWith_EXTINF [OF assms(1)]
  have 1: "parse_line st l = Inr (st\<lparr>currentChannel := None\<rparr>)"
    by (simp add: parse_line_def Let_def assms(1))
  from startsWith_http [OF assms(3)]
  have 2: "parse_line (st\<lparr>currentChannel := None\<rparr>) u = Inr (st\<lparr>currentChannel := None\<rparr>)"
    by (simp add: parse_line_def Let_def)
  from 1 2 show ?thesis by simp
qed

lemmas eval_defs = parseM3U_def parse_line_def extinf_line_def url_line_def validUrl_def
  attribute_loop.simps initial_def newChannel_def set_attribute_def regex_match_def regex_exec_def
  extinfRegex_def attributeValueRegex_def plus_greedy_def trim_def startsWith_def
  toLowerCase_def js_def isWhiteSpace_def isDigit_def isWordChar_def isKeyChar_def
  notComma_def notQuote_def anyChar_def isLineTerminator_def Let_def

section \<open>Consecutive metadata lines\<close>

lemma extinf_line_zero: "\<exists>cur. extinf_line 0 t = Inr (cur, 0)"
  using extinf_line_cases [of t 0] by auto

lemma parse_line_extinf:
  assumes "startsWith (trim l) (js ''#EXTINF'')" and "extinf_line (lastIndex st) (trim l) = Inr (cur, li)"
  shows "parse_line st l = Inr (st\<lparr>currentChannel := cur, lastIndex := li\<rparr>)"
  using startsWith_EXTINF [OF assms(1)] assms by (simp add: parse_line_def Let_def)

lemma parse_line_url:
  assumes "validUrl (trim u)" and "currentChannel st = Some c"
  shows "parse_line st u =
    Inr (st\<lparr>channels := channels st @ [c\<lparr>streamUrl := trim u\<rparr>], currentChannel := None\<rparr>)"
  using startsWith_http [OF validUrl_http [OF assms(1)]] validUrl_http [OF assms(1)] assms
  by (simp add: parse_line_def Let_def url_line_def)

text \<open>
  Claim C6, as amended. Two consecutive lines that start with \<open>#EXTINF\<close>, the second of
  which matches \<open>extinfRegex\<close>, followed by a valid URL line, give exactly one channel: the
  one built from the second line, with the URL line as its \<open>streamUrl\<close>.
\<close>

theorem second_extinf_wins:
  assumes "startsWith (trim l1) (js ''#EXTINF'')"
    and "startsWith (trim l2) (js ''#EXTINF'')"
    and "regex_match extinfRegex (trim l2) \<noteq> None"
    and "validUrl (trim u)"
    and "10 \<notin> set l1" and "10 \<notin> set l2" and "10 \<notin> set u"
  shows "\<exists>c. extinf_line 0 (trim l2) = Inr (Some c, 0) \<and>
             parseM3U (l1 @ [10] @ l2 @ [10] @ u) = Inr [c\<lparr>streamUrl := trim u\<rparr>]"
proof -
  have lines: "js_split (l1 @ [10] @ l2 @ [10] @ u) = [l1, l2, u]"
    using assms(5-7) by (simp add: js_split_append js_split_single)
  obtain cur1 where c1: "extinf_line 0 (trim l1) = Inr (cur1, 0)"
    using extinf_line_zero by blast
  from extinf_line_cases [of "trim l2" 0] assms(3)
  obtain c where c2: "extinf_line 0 (trim l2) = Inr (Some c, 0)" by auto
  let ?s1 = "initial\<lparr>currentChannel := cur1, lastIndex := 0\<rparr>"
  let ?s2 = "?s1\<lparr>currentChannel := Some c, lastIndex := 0\<rparr>"
  have 1: "parse_line initial l1 = Inr ?s1"
    using parse_line_extinf [OF assms(1), of initial cur1 0] c1 by (simp add: initial_def)
  have 2: "parse_line ?s1 l2 = Inr ?s2"
    using parse_line_extinf [OF assms(2), of ?s1 "Some c" 0] c2 by simp
  have 3: "parse_line ?s2 u =
      Inr (?s2\<lparr>channels := channels ?s2 @ [c\<lparr>streamUrl := trim u\<rparr>], currentChannel := None\<rparr>)"
    by (rule parse_line_url [OF assms(4)]) simp
  have 4: "channels initial = []" by (simp add: initial_def)
  from 1 2 3 have "parseM3U (l1 @ [10] @ l2 @ [10] @ u) = Inr [c\<lparr>streamUrl := trim u\<rparr>]"
    unfolding parseM3U_def lines by (simp add: 4)
  with c2 show ?thesis by blast
qed

theorem second_extinf_wins_witness:
  \<open>startsWith (trim (js ''#EXTINF:-1,First'')) (js ''#EXTINF'') \<and>
   startsWith (trim (js ''#EXTINF:-1 tvg-id="b",Second'')) (js ''#EXTINF'') \<and>
   regex_match extinfRegex (trim (js ''#EXTINF:-1 tvg-id="b",Second'')) \<noteq> None \<and>
   validUrl (trim (js ''http://x/s'')) \<and>
   (\<exists>c. parseM3U (js ''#EXTINF:-1,First'' @ [10] @ js ''#EXTINF:-1 tvg-id="b",Second'' @ [10] @ js ''http://x/s'') = Inr [c] \<and>
        title c = js ''Second'' \<and> tvgId c = Some (js ''b'') \<and> streamUrl c = js ''http://x/s'')\<close>
proof -
  have 1: "startsWith (trim (js ''#EXTINF:-1,First'')) (js ''#EXTINF'')"
    by (simp add: trim_def startsWith_def js_def isWhiteSpace_def)
  have 2: \<open>startsWith (trim (js ''#EXTINF:-1 tvg-id="b",Second'')) (js ''#EXTINF'')\<close>
    by (simp add: trim_def startsWith_def js_def isWhiteSpace_def)
  have 3: \<open>regex_match extinfRegex (trim (js ''#EXTINF:-1 tvg-id="b",Second'')) \<noteq> None\<close>
    by (simp add: eval_defs)
  have 4: "validUrl (trim (js ''http://x/s''))"
    by (simp add: validUrl_def trim_def startsWith_def js_def isWhiteSpace_def)
  have 5: "10 \<notin> set (js ''#EXTINF:-1,First'')" by (simp add: js_def)
  have 6: \<open>10 \<notin> set (js ''#EXTINF:-1 tvg-id="b",Second'')\<close> by (simp add: js_def)
  have 7: "10 \<notin> set (js ''http://x/s'')" by (simp add: js_def)
  have 8: \<open>extinf_line 0 (trim (js ''#EXTINF:-1 tvg-id="b",Second'')) =
     Inr (Some (newChannel\<lparr>title := js ''Second'', tvgId := Some (js ''b''),
        rawAttributes := [js ''tvg-id'' \<mapsto> js ''b'']\<rparr>), 0)\<close>
    by (simp add: eval_defs)
  have 9: "trim (js ''http://x/s'') = js ''http://x/s''"
    by (simp add: trim_def js_def isWhiteSpace_def)
  from second_extinf_wins [OF 1 2 3 4 5 6 7] 8
  have "parseM3U (js ''#EXTINF:-1,First'' @ [10] @ js ''#EXTINF:-1 tvg-id=\"b\",Second'' @ [10] @ js ''http://x/s'') =
     Inr [newChannel\<lparr>title := js ''Second'', tvgId := Some (js ''b''),
        rawAttributes := [js ''tvg-id'' \<mapsto> js ''b''], streamUrl := js ''http://x/s''\<rparr>]"
    by (auto simp: 9)
  with 1 2 3 4 show ?thesis by simp
qed

text \<open>
  Claim C6 as stated fails when the second metadata line does not match \<open>extinfRegex\<close>
  (here it has no comma): the line is dropped and the URL line finds no pending entry.
\<close>

theorem second_extinf_malformed:
  \<open>parseM3U (js ''#EXTINF:-1,First\<newline>#EXTINF:-1 tvg-name="Second"\<newline>http://x/s'') = Inr []\<close>
  by (simp add: eval_defs)

section \<open>Order of the output\<close>

text \<open>\<open>built_from lines c (i, j)\<close>: the channel \<open>c\<close> is the one the metadata line \<open>i\<close> builds,
  completed by the URL line \<open>j\<close>.\<close>

definition built_from :: "jsstring list \<Rightarrow> channel \<Rightarrow> nat \<times> nat \<Rightarrow> bool" where
  "built_from lines c p =
     (fst p < snd p \<and> snd p < length lines \<and>
      startsWith (trim (lines ! fst p)) (js ''#EXTINF'') \<and>
      (\<exists>c0. extinf_line 0 (trim (lines ! fst p)) = Inr (Some c0, 0) \<and>
            c = c0\<lparr>streamUrl := trim (lines ! snd p)\<rparr>))"

definition pending_from :: "jsstring list \<Rightarrow> nat \<Rightarrow> (nat \<times> nat) list \<Rightarrow> channel option \<Rightarrow> bool" where
  "pending_from lines n ps cur =
     (case cur of
        None \<Rightarrow> True
      | Some c \<Rightarrow>
          (\<exists>i<n. startsWith (trim (lines ! i)) (js ''#EXTINF'') \<and>
                 extinf_line 0 (trim (lines ! i)) = Inr (Some c, 0) \<and>
                 (\<forall>p\<in>set ps. snd p < i)))"

definition trace_inv :: "jsstring list \<Rightarrow> nat \<Rightarrow> pstate \<Rightarrow> (nat \<times> nat) list \<Rightarrow> bool" where
  "trace_inv lines n st ps =
     (lastIndex st = 0 \<and>
      list_all2 (built_from lines) (channels st) ps \<and>
      sorted_wrt (\<lambda>p q. snd p < fst q) ps \<and>
      (\<forall>p\<in>set ps. snd p < n) \<and>
      pending_from lines n ps (currentChannel st))"

lemma trace_inv_Suc: "trace_inv lines n st ps \<Longrightarrow> trace_inv lines (Suc n) st ps"
  by (cases "currentChannel st") (auto simp: trace_inv_def pending_from_def less_Suc_eq)

lemma trace_inv_initial: "trace_inv lines 0 initial []"
  by (simp add: trace_inv_def initial_def pending_from_def)

lemma trace_inv_step:
  assumes inv: "trace_inv lines n st ps" and n: "n < length lines"
  shows "\<exists>st' ps'. parse_line st (lines ! n) = Inr st' \<and> trace_inv lines (Suc n) st' ps'"
proof -
  let ?t = "trim (lines ! n)"
  from inv have li: "lastIndex st = 0" by (simp add: trace_inv_def)
  consider (skip) "?t = [] \<or> startsWith ?t (js ''#EXTM3U'')"
    | (extinf) "?t \<noteq> []" "\<not> startsWith ?t (js ''#EXTM3U'')" "startsWith ?t (js ''#EXTINF'')"
    | (other) "?t \<noteq> []" "\<not> startsWith ?t (js ''#EXTM3U'')" "\<not> startsWith ?t (js ''#EXTINF'')"
    by blast
  then show ?thesis
  proof cases
    case skip
    then have "parse_line st (lines ! n) = Inr st" by (auto simp: parse_line_def Let_def)
    with trace_inv_Suc [OF inv] show ?thesis by blast
  next
    case extinf
    obtain cur where cur: "extinf_line 0 ?t = Inr (cur, 0)" using extinf_line_zero by blast
    let ?st = "st\<lparr>currentChannel := cur, lastIndex := 0\<rparr>"
    from parse_line_extinf [OF extinf(3), of st cur 0] cur li
    have 1: "parse_line st (lines ! n) = Inr ?st" by simp
    from inv have "\<forall>p\<in>set ps. snd p < n" by (simp add: trace_inv_def)
    with cur extinf(3) have "pending_from lines (Suc n) ps cur"
      by (cases cur) (auto simp: pending_from_def)
    with inv have "trace_inv lines (Suc n) ?st ps"
      by (auto simp: trace_inv_def less_Suc_eq)
    with 1 show ?thesis by blast
  next
    case other
    show ?thesis
    proof (cases "currentChannel st")
      case None
      with other have "parse_line st (lines ! n) = Inr st" by (simp add: parse_line_def Let_def)
      with trace_inv_Suc [OF inv] show ?thesis by blast
    next
      case (Some c)
      show ?thesis
      proof (cases "startsWith ?t (js ''http'') \<and> validUrl ?t")
        case True
        let ?st = "st\<lparr>channels := channels st @ [c\<lparr>streamUrl := ?t\<rparr>], currentChannel := None\<rparr>"
        from True Some have 1: "parse_line st (lines ! n) = Inr ?st"
          by (simp add: parse_line_url)
        from inv Some obtain i where i: "i < n" "startsWith (trim (lines ! i)) (js ''#EXTINF'')"
          "extinf_line 0 (trim (lines ! i)) = Inr (Some c, 0)" "\<forall>p\<in>set ps. snd p < i"
          by (auto simp: trace_inv_def pending_from_def)
        from i n have b: "built_from lines (c\<lparr>streamUrl := ?t\<rparr>) (i, n)"
          by (simp add: built_from_def)
        from inv have l: "list_all2 (built_from lines) (channels st) ps"
          and s: "sorted_wrt (\<lambda>p q. snd p < fst q) ps" and lt: "\<forall>p\<in>set ps. snd p < n"
          by (simp_all add: trace_inv_def)
        from l b have "list_all2 (built_from lines) (channels ?st) (ps @ [(i, n)])"
          by (simp add: list_all2_appendI)
        moreover from s i(4) have "sorted_wrt (\<lambda>p q. snd p < fst q) (ps @ [(i, n)])"
          by (simp add: sorted_wrt_append)
        moreover from lt have "\<forall>p\<in>set (ps @ [(i, n)]). snd p < Suc n"
          by (auto simp: less_Suc_eq)
        ultimately have "trace_inv lines (Suc n) ?st (ps @ [(i, n)])"
          using li by (simp add: trace_inv_def pending_from_def)
        with 1 show ?thesis by blast
      next
        case False
        let ?st = "st\<lparr>currentChannel := None\<rparr>"
        from False Some other have "parse_line st (lines ! n) = Inr st \<or> parse_line st (lines ! n) = Inr ?st"
          by (auto simp: parse_line_def Let_def url_line_def)
        moreover from inv have "trace_inv lines (Suc n) ?st ps"
          by (auto simp: trace_inv_def pending_from_def less_Suc_eq)
        ultimately show ?thesis using trace_inv_Suc [OF inv] by blast
      qed
    qed
  qed
qed

lemma trace_inv_run:
  "trace_inv lines n st ps \<Longrightarrow> n \<le> length lines \<Longrightarrow>
   \<exists>st' ps'. parse_lines st (drop n lines) = Inr st' \<and> trace_inv lines (length lines) st' ps'"
proof (induction "length lines - n" arbitrary: n st ps)
  case 0
  then show ?case by auto
next
  case (Suc k)
  then have n: "n < length lines" by simp
  from trace_inv_step [OF Suc.prems(1) n] obtain st1 ps1 where
    1: "parse_line st (lines ! n) = Inr st1" and 2: "trace_inv lines (Suc n) st1 ps1" by blast
  from Suc.hyps(2) have "k = length lines - Suc n" by simp
  from Suc.hyps(1) [OF this 2] n obtain st' ps' where
    3: "parse_lines st1 (drop (Suc n) lines) = Inr st'" and 4: "trace_inv lines (length lines) st' ps'"
    by auto
  from n have "drop n lines = lines ! n # drop (Suc n) lines" by (simp add: Cons_nth_drop_Suc)
  with 1 3 have "parse_lines st (drop n lines) = Inr st'" by simp
  with 4 show ?case by blast
qed

lemma built_from_lt: "list_all2 (built_from lines) cs ps \<Longrightarrow> p \<in> set ps \<Longrightarrow> fst p < snd p"
  by (auto simp: list_all2_conv_all_nth in_set_conv_nth built_from_def)

text \<open>
  Claim C7. The channels come out in the order of their metadata lines: the k-th channel
  of the output is built from the metadata line numbered \<open>fst (ps ! k)\<close> and the URL line
  numbered \<open>snd (ps ! k)\<close>, and these line numbers increase along the output.
\<close>

theorem parseM3U_order:
  "\<exists>chs ps. parseM3U m3uText = Inr chs \<and>
      list_all2 (built_from (js_split m3uText)) chs ps \<and>
      sorted_wrt (<) (map fst ps) \<and> sorted_wrt (\<lambda>p q. snd p < fst q) ps"
proof -
  let ?lines = "js_split m3uText"
  from trace_inv_run [OF trace_inv_initial, of ?lines] obtain st ps where
    1: "parse_lines initial ?lines = Inr st" and 2: "trace_inv ?lines (length ?lines) st ps"
    by auto
  from 2 have l: "list_all2 (built_from ?lines) (channels st) ps"
    and s: "sorted_wrt (\<lambda>p q. snd p < fst q) ps"
    by (simp_all add: trace_inv_def)
  have "sorted_wrt (\<lambda>p q. fst p < fst q) ps"
  proof (rule sorted_wrt_mono_rel [OF _ s])
    fix p q assume "p \<in> set ps" "q \<in> set ps" "snd p < fst q"
    with built_from_lt [OF l, of p] show "fst p < fst q" by simp
  qed
  then have "sorted_wrt (<) (map fst ps)" by (simp add: sorted_wrt_map)
  with 1 l s show ?thesis by (auto simp: parseM3U_def)
qed

section \<open>The first scenario\<close>

text \<open>
  Claim C4. The first scenario of the specification: a header line, one metadata line
  with three attributes, its URL line and a final newline give exactly one channel.
\<close>

theorem scenario_1:
  \<open>parseM3U (js ''#EXTM3U\<newline>#EXTINF:-1 tvg-id="c1" tvg-logo="http://x/l.png" group-title="News",Channel One\<newline>http://x/stream1.m3u8\<newline>'') =
   Inr [\<lparr>title = js ''Channel One'', streamUrl = js ''http://x/stream1.m3u8'',
         logo = Some (js ''http://x/l.png''), groupTitle = js ''News'', tvgId = Some (js ''c1''),
         rawAttributes = [js ''tvg-id'' \<mapsto> js ''c1'', js ''tvg-logo'' \<mapsto> js ''http://x/l.png'',
                          js ''group-title'' \<mapsto> js ''News'']\<rparr>]\<close>
  by (simp add: eval_defs)

section \<open>The title\<close>

text \<open>After the attribute loop the title is the value of the last \<open>tvg-name\<close> attribute,
  or empty when there is none.\<close>

definition title_from_name :: "channel \<Rightarrow> bool" where
  "title_from_name ch =
     (title ch = (case rawAttributes ch (js ''tvg-name'') of None \<Rightarrow> [] | Some v \<Rightarrow> v))"

lemma set_attribute_title: "title_from_name ch \<Longrightarrow> title_from_name (set_attribute key val ch)"
  by (auto simp: title_from_name_def set_attribute_def Let_def js_def)

lemma attribute_loop_title:
  "title_from_name ch \<Longrightarrow> attribute_loop s li ch = Inr (ch', li') \<Longrightarrow> title_from_name ch'"
proof (induction s li ch rule: attribute_loop.induct)
  case (1 s li ch)
  obtain m l where ex: "regex_exec attributeValueRegex s li = (m, l)"
    by (cases "regex_exec attributeValueRegex s li")
  show ?case
  proof (cases m)
    case None
    with ex "1.prems" show ?thesis
      by (subst (asm) attribute_loop.simps) simp
  next
    case (Some caps)
    with ex have ex': "regex_exec attributeValueRegex s li = (Some caps, l)" by simp
    from regex_exec_groups [OF ex'] obtain g1 g2 where g: "caps 1 = Some g1" "caps 2 = Some g2"
      by blast
    from "1.prems"(2) ex' g
    have "attribute_loop s l (set_attribute (toLowerCase g1) g2 ch) = Inr (ch', li')"
      by (subst (asm) attribute_loop.simps) simp
    from "1.IH" [OF ex' [symmetric] refl g(1) g(2) set_attribute_title [OF "1.prems"(1)] this]
    show ?thesis .
  qed
qed

text \<open>The order in which the title of an accepted metadata line is resolved (lines 576-593):
  the value of \<open>tvg-name\<close> when it is not empty, else the trimmed text of group 2 of
  \<open>extinfRegex\<close> when that is not empty, else the placeholder.\<close>

lemma title_resolution:
  assumes "regex_match extinfRegex t = Some m"
  shows "\<exists>c. extinf_line li t = Inr (Some c, 0) \<and>
    title c =
      (let titleString = (case m 2 of None \<Rightarrow> [] | Some x \<Rightarrow> trim x);
           fallback = (if titleString \<noteq> [] then titleString else js ''Untitled Channel'')
       in case rawAttributes c (js ''tvg-name'') of
            None \<Rightarrow> fallback
          | Some v \<Rightarrow> if v \<noteq> [] then v else fallback)"
proof -
  define a where "a = (case m 1 of None \<Rightarrow> [] | Some a \<Rightarrow> if a = [] then [] else a)"
  obtain ch where ch: "attribute_loop a li newChannel = Inr (ch, 0)"
    using attribute_loop_total by blast
  have "title_from_name newChannel" by (simp add: title_from_name_def newChannel_def)
  from attribute_loop_title [OF this ch] have t: "title_from_name ch" .
  have tr: "trim [] = []" by (simp add: trim_def)
  from assms ch t show ?thesis
    by (cases "m 2"; cases "rawAttributes ch (js ''tvg-name'')")
       (auto simp: extinf_line_def a_def Let_def title_from_name_def tr)
qed

text \<open>
  Claim C2. The attributes end at the first comma after the duration, not at the final
  comma of the line. A comma inside a quoted attribute value cuts the attributes short:
  the \<open>tvg-name\<close> attribute behind it is not seen, and the title is neither its value nor
  the text after the final comma, but everything after the first comma.
\<close>

theorem title_cut_at_first_comma:
  \<open>parseM3U (js ''#EXTINF:-1 group-title="News, World" tvg-name="One",Channel One\<newline>http://x/s'') =
   Inr [\<lparr>title = js ''World" tvg-name="One",Channel One'', streamUrl = js ''http://x/s'',
         logo = None, groupTitle = js ''Uncategorized'', tvgId = None, rawAttributes = Map.empty\<rparr>]\<close>
  by (simp add: eval_defs)

section \<open>No state outlives a call\<close>

text \<open>
  Claim C8. A call of \<open>parseM3U\<close> creates all its state afresh (\<open>channels\<close>,
  \<open>currentChannel\<close> and the regular expression objects), so what it returns depends on
  the input only, and two calls on the same string return equal sequences. The one object
  of a call that carries state from one use to the next, \<open>attributeValueRegex\<close> with its
  \<open>lastIndex\<close>, is back at the initial \<open>lastIndex\<close> when the call returns: a second run
  of the loop that started from the \<open>lastIndex\<close> the first left behind ends in the same state.
\<close>

theorem parseM3U_deterministic:
  "\<exists>chs st. parseM3U m3uText = Inr chs \<and>
     parse_lines initial (js_split m3uText) = Inr st \<and> channels st = chs \<and>
     parse_lines (initial\<lparr>lastIndex := lastIndex st\<rparr>) (js_split m3uText) = Inr st"
proof -
  from parseM3U_ok [of m3uText] obtain st where
    1: "parse_lines initial (js_split m3uText) = Inr st" and 2: "state_ok st"
    and 3: "parseM3U m3uText = Inr (channels st)" by blast
  from 2 have "initial\<lparr>lastIndex := lastIndex st\<rparr> = initial"
    by (simp add: state_ok_def initial_def)
  with 1 3 show ?thesis by simp
qed

section \<open>The duration\<close>

lemma star_greedy_all:
  "list_all P ds \<Longrightarrow> star_greedy P k r \<noteq> None \<Longrightarrow> star_greedy P k (ds @ r) = star_greedy P k r"
  by (induction ds) (auto split: option.splits)

lemma star_greedy_total: "(\<And>r. k r \<noteq> None) \<Longrightarrow> star_greedy P k s \<noteq> None"
  by (induction s) (auto split: option.splits)



lemma star_greedy_exact: "star_greedy P (\<lambda>rest. Some (f rest)) s = Some (f (dropWhile P s))"
  by (induction s) auto

lemma take_dropWhile: "take (length t - length (dropWhile P t)) t = takeWhile P t"
  by (induction t) (auto simp: Suc_diff_le length_dropWhile_le)

text \<open>The part of \<open>extinfRegex\<close> after the digits, at a comma: the optional group fails,
  the comma matches and group 2 takes the rest of the line.\<close>

definition extinf_tail :: re where
  "extinf_tail = Seq (Opt (Seq (Plus isWhiteSpace) (Grp 1 (StarLazy anyChar))))
                   (Seq (Lit (js '','')) (Grp 2 (Star anyChar)))"

lemma extinfRegex_unfold:
  "extinfRegex = Seq (Lit (js ''#EXTINF:'')) (Seq (Opt (Lit (js ''-''))) (Seq (Plus isDigit) extinf_tail))"
  by (simp add: extinfRegex_def extinf_tail_def)

lemma extinf_tail_comma:
  "rmatch extinf_tail Some (44 # t, caps) = Some (dropWhile anyChar t, caps(2 \<mapsto> takeWhile anyChar t))"
  by (simp add: extinf_tail_def plus_greedy_def isWhiteSpace_def js_def star_greedy_exact take_dropWhile)



text \<open>\<open>has_duration r\<close>: the text \<open>r\<close> after \<open>#EXTINF:\<close> starts with a duration, that is
  with a digit, or with \<open>-\<close> and a digit.\<close>

definition has_duration :: "jsstring \<Rightarrow> bool" where
  "has_duration r =
     (case r of
        [] \<Rightarrow> False
      | c # cs \<Rightarrow> isDigit c \<or> (c = 45 \<and> (case cs of [] \<Rightarrow> False | d # _ \<Rightarrow> isDigit d)))"







section \<open>The two copies of the parser\<close>

lemmas eval_defs_first = parseM3U_first_def parse_line_first_def extinf_line_first_def
  url_line_first_def attributeRegex_def titleRegex_def












section \<open>The shape of a metadata line\<close>

text \<open>
  The shape \<open>#EXTINF:<duration><optional-attributes>,<title-text>\<close> of the specification,
  read off the line itself. The duration is an optional \<open>-\<close> and digits; what follows is a
  comma and the title text, or white space, attributes free of line terminators (CR,
  U+2028, U+2029), a comma and the title text.
\<close>

fun comma_first :: "jsstring \<Rightarrow> bool" where
  \<comment> \<open>a comma comes, and no line terminator before it\<close>
  "comma_first [] = False"
| "comma_first (c # cs) = (c = 44 \<or> (anyChar c \<and> comma_first cs))"

definition attributes_and_title :: "jsstring \<Rightarrow> bool" where
  \<comment> \<open>\<open><optional-attributes>,<title-text>\<close>\<close>
  "attributes_and_title rest =
     (case rest of
        [] \<Rightarrow> False
      | c # cs \<Rightarrow> c = 44 \<or> (isWhiteSpace c \<and> comma_first (dropWhile isWhiteSpace cs)))"

definition after_duration :: "jsstring \<Rightarrow> jsstring" where
  \<comment> \<open>the text after \<open>#EXTINF:\<close> and the duration\<close>
  "after_duration t =
     dropWhile isDigit (case drop 8 t of [] \<Rightarrow> [] | c # cs \<Rightarrow> if c = 45 then cs else c # cs)"

definition extinf_shape :: "jsstring \<Rightarrow> bool" where
  "extinf_shape t =
     (startsWith t (js ''#EXTINF:'') \<and> has_duration (drop 8 t) \<and>
      attributes_and_title (after_duration t))"

definition is_duration :: "jsstring \<Rightarrow> bool" where
  \<comment> \<open>\<open>-?\d+\<close>\<close>
  "is_duration d =
     (case d of
        [] \<Rightarrow> False
      | c # cs \<Rightarrow> if c = 45 then cs \<noteq> [] \<and> list_all isDigit cs else list_all isDigit (c # cs))"

lemma lit_Some: "lit w s = Some r \<Longrightarrow> s = w @ r"
  by (induction w s rule: lit.induct) (auto split: if_splits)

lemma lit_append: "lit w (w @ r) = Some r"
  by (induction w) auto

lemma star_lazy_consumed:
  "star_lazy P k s = Some res \<Longrightarrow>
   \<exists>pre rest. s = pre @ rest \<and> list_all P pre \<and> k rest = Some res"
proof (induction s)
  case Nil
  then show ?case by simp
next
  case (Cons c cs)
  show ?case
  proof (cases "k (c # cs)")
    case (Some r)
    with Cons.prems have "k (c # cs) = Some res" by simp
    then show ?thesis by (intro exI [of _ "[]"] exI [of _ "c # cs"]) simp
  next
    case None
    with Cons.prems have c: "P c" and "star_lazy P k cs = Some res" by (auto split: if_splits)
    from Cons.IH [OF this(2)] obtain pre rest where "cs = pre @ rest" "list_all P pre" "k rest = Some res"
      by blast
    with c show ?thesis by (intro exI [of _ "c # pre"] exI [of _ rest]) simp
  qed
qed

lemma plus_greedy_consumed:
  "plus_greedy P k s = Some res \<Longrightarrow>
   \<exists>c pre rest. s = c # pre @ rest \<and> P c \<and> list_all P pre \<and> k rest = Some res"
  by (cases s) (auto simp: plus_greedy_def split: if_splits dest!: star_greedy_consumed)

lemma comma_first_append: "list_all anyChar mid \<Longrightarrow> comma_first (mid @ 44 # ttl)"
  by (induction mid) auto

lemma comma_first_dropWhile:
  "list_all anyChar mid \<Longrightarrow> comma_first (dropWhile isWhiteSpace (mid @ 44 # ttl))"
  by (induction mid) (auto simp: isWhiteSpace_def comma_first_append)

lemma dropWhile_all: "list_all P pre \<Longrightarrow> dropWhile P (pre @ s) = dropWhile P s"
  by (induction pre) auto

lemma rmatch_Opt_Seq:
  "rmatch (Seq (Opt a) b) k st =
     (case rmatch a (\<lambda>st'. rmatch b k st') st of None \<Rightarrow> rmatch b k st | Some res \<Rightarrow> Some res)"
  by simp

text \<open>A match of the part after the digits shows the shape.\<close>

lemma extinf_tail_shape:
  assumes "rmatch extinf_tail Some (rest, caps) = Some res"
  shows "attributes_and_title rest"
proof (cases "rmatch (Seq (Plus isWhiteSpace) (Grp 1 (StarLazy anyChar)))
    (\<lambda>st'. rmatch (Seq (Lit (js '','')) (Grp 2 (Star anyChar))) Some st') (rest, caps)")
  case None
  from assms have "rmatch (Seq (Lit (js '','')) (Grp 2 (Star anyChar))) Some (rest, caps) = Some res"
    unfolding extinf_tail_def rmatch_Opt_Seq None by (simp only: option.case)
  then obtain r where "lit (js '','') rest = Some r"
    by (auto split: option.splits)
  from lit_Some [OF this] show ?thesis by (simp add: attributes_and_title_def js_def)
next
  case (Some a)
  let ?k = "\<lambda>r. rmatch (Grp 1 (StarLazy anyChar))
      (\<lambda>st'. rmatch (Seq (Lit (js '','')) (Grp 2 (Star anyChar))) Some st') (r, caps)"
  from Some have "plus_greedy isWhiteSpace ?k rest = Some a" by simp
  from plus_greedy_consumed [OF this] obtain c pre r where
    r: "rest = c # pre @ r" "isWhiteSpace c" "list_all isWhiteSpace pre" "?k r = Some a" by blast
  let ?k2 = "\<lambda>r'. rmatch (Seq (Lit (js '','')) (Grp 2 (Star anyChar))) Some
      (r', caps(1 \<mapsto> take (length r - length r') r))"
  from r(4) have "star_lazy anyChar ?k2 r = Some a" by (simp cong: option.case_cong)
  from star_lazy_consumed [OF this] obtain mid r' where
    m: "r = mid @ r'" "list_all anyChar mid" "?k2 r' = Some a" by blast
  from m(3) obtain ttl where "lit (js '','') r' = Some ttl"
    by (auto split: option.splits)
  from lit_Some [OF this] have "r' = 44 # ttl" by (simp add: js_def)
  with r m comma_first_dropWhile [OF m(2), of ttl]
  show ?thesis by (simp add: attributes_and_title_def dropWhile_all)
qed

lemma attributes_and_title_no_digit:
  "attributes_and_title rest \<Longrightarrow> dropWhile isDigit rest = rest"
  by (cases rest) (auto simp: attributes_and_title_def isDigit_def isWhiteSpace_def)

lemma extinf_digits_shape:
  assumes "plus_greedy isDigit (\<lambda>rest. rmatch extinf_tail Some (rest, caps)) r = Some res"
  shows "\<exists>c cs. r = c # cs \<and> isDigit c \<and> attributes_and_title (dropWhile isDigit r)"
proof -
  from plus_greedy_consumed [OF assms] obtain c pre rest where
    r: "r = c # pre @ rest" "isDigit c" "list_all isDigit pre"
      "rmatch extinf_tail Some (rest, caps) = Some res" by blast
  from extinf_tail_shape [OF r(4)] have s: "attributes_and_title rest" .
  from r(1-3) have "dropWhile isDigit r = dropWhile isDigit rest" by (simp add: dropWhile_all)
  with s attributes_and_title_no_digit [OF s] r show ?thesis by simp
qed

lemma extinf_match_shape:
  assumes "rmatch extinfRegex Some (t, caps) = Some res"
  shows "extinf_shape t"
proof -
  let ?k = "\<lambda>st. rmatch (Seq (Plus isDigit) extinf_tail) Some st"
  from assms obtain r where lit: "lit (js ''#EXTINF:'') t = Some r"
    and opt: "rmatch (Opt (Lit (js ''-''))) ?k (r, caps) = Some res"
    by (auto simp: extinfRegex_unfold split: option.splits)
  from lit_Some [OF lit] have t: "t = js ''#EXTINF:'' @ r" .
  then have sw: "startsWith t (js ''#EXTINF:'')" "drop 8 t = r"
    by (simp_all add: startsWith_def js_def)
  show ?thesis
  proof (cases "rmatch (Lit (js ''-'')) ?k (r, caps)")
    case None
    with opt have "plus_greedy isDigit (\<lambda>rest. rmatch extinf_tail Some (rest, caps)) r = Some res"
      by simp
    from extinf_digits_shape [OF this] obtain c cs where
      "r = c # cs" "isDigit c" "attributes_and_title (dropWhile isDigit r)" by blast
    with sw show ?thesis
      by (auto simp: extinf_shape_def has_duration_def after_duration_def isDigit_def)
  next
    case (Some a)
    with opt have a: "rmatch (Lit (js ''-'')) ?k (r, caps) = Some res" by simp
    then obtain r1 where l1: "lit (js ''-'') r = Some r1"
      and "plus_greedy isDigit (\<lambda>rest. rmatch extinf_tail Some (rest, caps)) r1 = Some res"
      by (auto split: option.splits)
    from extinf_digits_shape [OF this(2)] obtain c cs where
      "r1 = c # cs" "isDigit c" "attributes_and_title (dropWhile isDigit r1)" by blast
    with sw lit_Some [OF l1] show ?thesis
      by (auto simp: extinf_shape_def has_duration_def after_duration_def js_def)
  qed
qed

subsection \<open>A line without the shape\<close>






section \<open>What a line of the shape is decomposed into\<close>

definition attributes_text :: "jsstring \<Rightarrow> jsstring" where
  \<comment> \<open>the attributes of \<open><optional-attributes>,<title-text>\<close>: the text between the white
      space and the first comma\<close>
  "attributes_text rest = takeWhile notComma (dropWhile isWhiteSpace rest)"

definition title_text :: "jsstring \<Rightarrow> jsstring" where
  \<comment> \<open>the title text: what follows the first comma\<close>
  "title_text rest = tl (dropWhile notComma rest)"


lemma comma_first_split: "comma_first a \<Longrightarrow> \<exists>ttl. dropWhile notComma a = 44 # ttl"
  by (induction a) (auto simp: notComma_def)

lemma star_greedy_stops:
  assumes "dropWhile P rest = rest"
  shows "star_greedy P k rest = k rest"
proof (cases rest)
  case Nil
  then show ?thesis by simp
next
  case (Cons c cs)
  with assms hd_dropWhile [of P rest] have "\<not> P c" by auto
  with Cons show ?thesis by simp
qed

lemma star_lazy_first_comma:
  assumes "\<And>c cs. c \<noteq> 44 \<Longrightarrow> k (c # cs) = None" and "\<And>cs. k (44 # cs) \<noteq> None"
  shows "comma_first a \<Longrightarrow> star_lazy anyChar k a = k (dropWhile notComma a)"
proof (induction a)
  case Nil
  then show ?case by simp
next
  case (Cons c cs)
  show ?case
  proof (cases "c = 44")
    case True
    with assms(2) [of cs] show ?thesis by (auto simp: notComma_def)
  next
    case False
    with Cons assms(1) [of c cs] show ?thesis by (simp add: notComma_def)
  qed
qed

lemma duration_digits:
  assumes "ds \<noteq> []" and "list_all isDigit ds" and "dropWhile isDigit rest = rest"
    and "k rest \<noteq> None"
  shows "plus_greedy isDigit k (ds @ rest) = k rest"
proof -
  from assms(1,2) obtain d ds' where ds: "ds = d # ds'" "isDigit d" "list_all isDigit ds'"
    by (cases ds) auto
  from assms(3) have 1: "star_greedy isDigit k rest = k rest"
    by (rule star_greedy_stops)
  with assms(4) star_greedy_all [OF ds(3), of k rest]
  have "star_greedy isDigit k (ds' @ rest) = k rest" by simp
  with ds show ?thesis by (simp add: plus_greedy_def)
qed

text \<open>Both copies start their expression with \<open>#EXTINF:-?\d+\<close>. On a line that starts
  with \<open>#EXTINF:\<close> and a duration the match is at the start of the line, and it is the
  match of the rest of the expression on the rest of the line.\<close>

lemma duration_prefix:
  assumes "is_duration d" and "dropWhile isDigit rest = rest"
    and "rmatch T Some (rest, Map.empty) \<noteq> None"
  shows "search (Seq (Lit (js ''#EXTINF:'')) (Seq (Opt (Lit (js ''-''))) (Seq (Plus isDigit) T)))
           (js ''#EXTINF:'' @ d @ rest) = rmatch T Some (rest, Map.empty)"
proof -
  let ?k = "\<lambda>r. rmatch T Some (r, Map.empty)"
  have dig: "\<And>ds. ds \<noteq> [] \<Longrightarrow> list_all isDigit ds \<Longrightarrow> plus_greedy isDigit ?k (ds @ rest) = ?k rest"
    using duration_digits [OF _ _ assms(2), of _ ?k] assms(3) by simp
  from assms(1) obtain c cs where d: "d = c # cs" by (cases d) (auto simp: is_duration_def)
  obtain res where res: "?k rest = Some res" using assms(3) by auto
  show ?thesis
  proof (cases "c = 45")
    case True
    with assms(1) d have "cs \<noteq> []" "list_all isDigit cs" by (simp_all add: is_duration_def)
    from dig [OF this] res True d show ?thesis by (simp add: js_def)
  next
    case False
    with assms(1) d have "d \<noteq> []" "list_all isDigit d" by (simp_all add: is_duration_def)
    from dig [OF this] res False d show ?thesis by (simp add: js_def)
  qed
qed

subsection \<open>The revised copy\<close>

lemma extinf_tail_match:
  assumes "attributes_and_title rest"
  shows "\<exists>m. map_option snd (rmatch extinf_tail Some (rest, Map.empty)) = Some m \<and>
     (case m 1 of None \<Rightarrow> [] | Some a \<Rightarrow> a) = attributes_text rest \<and>
     m 2 = Some (takeWhile anyChar (title_text rest))"
proof -
  from assms obtain c cs where rest: "rest = c # cs" by (cases rest) (auto simp: attributes_and_title_def)
  show ?thesis
  proof (cases "c = 44")
    case True
    with rest extinf_tail_comma [of cs Map.empty] show ?thesis
      by (simp add: attributes_text_def title_text_def notComma_def isWhiteSpace_def)
  next
    case False
    with assms rest have c: "isWhiteSpace c" and cf: "comma_first (dropWhile isWhiteSpace cs)"
      by (simp_all add: attributes_and_title_def)
    let ?a = "dropWhile isWhiteSpace cs"
    let ?w = "takeWhile isWhiteSpace cs"
    let ?k2 = "\<lambda>r'. rmatch (Seq (Lit (js '','')) (Grp 2 (Star anyChar))) Some
        (r', [1 \<mapsto> take (length ?a - length r') ?a])"
    let ?k = "\<lambda>r. rmatch (Grp 1 (StarLazy anyChar))
        (\<lambda>st'. rmatch (Seq (Lit (js '','')) (Grp 2 (Star anyChar))) Some st') (r, Map.empty)"
    have k2: "\<And>x xs. x \<noteq> 44 \<Longrightarrow> ?k2 (x # xs) = None" "\<And>xs. ?k2 (44 # xs) \<noteq> None"
      by (simp_all add: js_def star_greedy_exact)
    have "?k ?a = star_lazy anyChar ?k2 ?a" by (simp cong: option.case_cong)
    also from star_lazy_first_comma [of ?k2, OF k2 cf]
    have "\<dots> = ?k2 (dropWhile notComma ?a)" .
    finally have ka: "?k ?a = ?k2 (dropWhile notComma ?a)" .
    from comma_first_split [OF cf] obtain ttl where ttl: "dropWhile notComma ?a = 44 # ttl"
      by blast
    have cap: "take (length ?a - length (44 # ttl)) ?a = takeWhile notComma ?a"
      using take_dropWhile [of ?a notComma] ttl by simp
    from ka ttl cap have ka': "?k ?a =
        Some (dropWhile anyChar ttl, [1 \<mapsto> takeWhile notComma ?a, 2 \<mapsto> takeWhile anyChar ttl])"
      by (simp add: js_def star_greedy_exact take_dropWhile)
    have "dropWhile isWhiteSpace ?a = ?a" by simp
    then have "star_greedy isWhiteSpace ?k ?a = ?k ?a"
      by (rule star_greedy_stops)
    moreover have "list_all isWhiteSpace ?w" by (simp add: list_all_iff) (meson set_takeWhileD)
    ultimately have "star_greedy isWhiteSpace ?k (?w @ ?a) = ?k ?a"
      using star_greedy_all [of isWhiteSpace ?w ?k ?a] ka' by simp
    then have sg: "star_greedy isWhiteSpace ?k cs = ?k ?a" by simp
    have ws: "\<And>x. isWhiteSpace x \<Longrightarrow> notComma x" by (auto simp: isWhiteSpace_def notComma_def)
    have "dropWhile notComma (?w @ ?a) = dropWhile notComma ?a"
      by (rule dropWhile_all) (auto simp: list_all_iff dest: set_takeWhileD ws)
    then have dc: "dropWhile notComma cs = 44 # ttl" using ttl by simp
    from c sg ka' have "rmatch extinf_tail Some (rest, Map.empty) =
        Some (dropWhile anyChar ttl, [1 \<mapsto> takeWhile notComma ?a, 2 \<mapsto> takeWhile anyChar ttl])"
      unfolding extinf_tail_def rmatch_Opt_Seq rest
      by (simp add: plus_greedy_def cong: option.case_cong)
    with c dc rest ws [OF c] show ?thesis
      by (simp add: attributes_text_def title_text_def)
  qed
qed

lemma startsWith_drop: "startsWith t p \<Longrightarrow> t = p @ drop (length p) t"
  by (metis append_take_drop_id startsWith_def)

lemma shape_decompose:
  assumes "extinf_shape t"
  shows "\<exists>d. is_duration d \<and> t = js ''#EXTINF:'' @ d @ after_duration t"
proof -
  let ?r = "drop 8 t"
  from assms have sw: "startsWith t (js ''#EXTINF:'')" and hd: "has_duration ?r"
    by (simp_all add: extinf_shape_def)
  have len: "length (js ''#EXTINF:'') = 8" by (simp add: js_def)
  from startsWith_drop [OF sw] have t: "t = js ''#EXTINF:'' @ ?r" by (simp only: len)
  from hd obtain c cs where r: "?r = c # cs" by (cases ?r) (auto simp: has_duration_def)
  have all: "\<And>xs. list_all isDigit (takeWhile isDigit xs)"
    by (simp add: list_all_iff) (meson set_takeWhileD)
  show ?thesis
  proof (cases "c = 45")
    case True
    with hd r obtain x xs where cs: "cs = x # xs" "isDigit x"
      by (cases cs) (auto simp: has_duration_def isDigit_def)
    let ?d = "45 # takeWhile isDigit cs"
    from cs all [of cs] have "is_duration ?d" by (simp add: is_duration_def)
    moreover from True r have "?r = ?d @ after_duration t" by (simp add: after_duration_def)
    ultimately show ?thesis using t by metis
  next
    case False
    with hd r have c: "isDigit c" by (simp add: has_duration_def)
    let ?d = "takeWhile isDigit ?r"
    from c r False all [of ?r] have "is_duration ?d" by (simp add: is_duration_def)
    moreover from False r have "?r = ?d @ after_duration t" by (simp add: after_duration_def)
    ultimately show ?thesis using t by metis
  qed
qed



text \<open>On a line of the shape, the revised copy finds the attributes and the title text
  where the shape has them.\<close>

lemma extinf_shaped_match:
  assumes "extinf_shape t"
  shows "\<exists>m. regex_match extinfRegex t = Some m \<and>
     (case m 1 of None \<Rightarrow> [] | Some a \<Rightarrow> a) = attributes_text (after_duration t) \<and>
     m 2 = Some (takeWhile anyChar (title_text (after_duration t)))"
proof -
  let ?rest = "after_duration t"
  from shape_decompose [OF assms] obtain d where d: "is_duration d" "t = js ''#EXTINF:'' @ d @ ?rest"
    by blast
  from assms have at: "attributes_and_title ?rest" by (simp add: extinf_shape_def)
  from extinf_tail_match [OF at] obtain m where
    m: "map_option snd (rmatch extinf_tail Some (?rest, Map.empty)) = Some m"
      "(case m 1 of None \<Rightarrow> [] | Some a \<Rightarrow> a) = attributes_text ?rest"
      "m 2 = Some (takeWhile anyChar (title_text ?rest))" by blast
  from m(1) have "rmatch extinf_tail Some (?rest, Map.empty) \<noteq> None" by auto
  from duration_prefix [OF d(1) attributes_and_title_no_digit [OF at] this]
  have "search extinfRegex (js ''#EXTINF:'' @ d @ ?rest) = rmatch extinf_tail Some (?rest, Map.empty)"
    by (simp add: extinfRegex_unfold)
  with d(2) m(1) have "regex_match extinfRegex t = Some m" by (simp add: regex_match_def)
  with m(2,3) show ?thesis by blast
qed




subsection \<open>The shape anywhere in the line\<close>

text \<open>The expression is searched for, so what the parser tests is whether the shape stands
  anywhere in the line: at its start or at a later character.\<close>

fun shape_somewhere :: "jsstring \<Rightarrow> bool" where
  "shape_somewhere [] = False"
| "shape_somewhere (c # cs) = (extinf_shape (c # cs) \<or> shape_somewhere cs)"

lemma match_iff_shape_somewhere:
  "(regex_match extinfRegex t \<noteq> None) = shape_somewhere t"
proof (induction t)
  case Nil
  have "\<not> extinf_shape []" by (simp add: extinf_shape_def startsWith_def js_def)
  with extinf_match_shape [of "[]" Map.empty] show ?case
    by (cases "rmatch extinfRegex Some ([], Map.empty)") (auto simp: regex_match_def)
next
  case (Cons c cs)
  show ?case
  proof (cases "extinf_shape (c # cs)")
    case True
    from extinf_shaped_match [OF this] show ?thesis using True by auto
  next
    case False
    with extinf_match_shape [of "c # cs" Map.empty]
    have "rmatch extinfRegex Some (c # cs, Map.empty) = None"
      by (cases "rmatch extinfRegex Some (c # cs, Map.empty)") auto
    with Cons False show ?thesis by (simp add: regex_match_def)
  qed
qed

text \<open>A line that starts with \<open>#EXTINF\<close> is dropped when the shape stands nowhere in it.\<close>

lemma shape_nowhere_dropped:
  assumes "startsWith (trim l) (js ''#EXTINF'')" and "\<not> shape_somewhere (trim l)"
  shows "parse_line st l = Inr (st\<lparr>currentChannel := None\<rparr>)"
proof -
  from assms(2) have "regex_match extinfRegex (trim l) = None"
    using match_iff_shape_somewhere [of "trim l"] by simp
  then have "extinf_line (lastIndex st) (trim l) = Inr (None, lastIndex st)"
    by (simp add: extinf_line_def)
  with startsWith_EXTINF [OF assms(1)]
  show ?thesis by (simp add: parse_line_def Let_def assms(1))
qed

text \<open>A \<open>#\<close> in a title does not keep the line from being dropped.\<close>

lemma hash_in_title_dropped:
  "parseM3U (js ''#EXTINF:-1 Channel #1\<newline>http://x/s'') = Inr []"
  by (simp add: eval_defs)

section \<open>The duration has no effect\<close>





section \<open>The attribute loop skips leading white space\<close>








section \<open>Trailing white space\<close>



section \<open>What the earlier copy decomposes a line into\<close>
















section \<open>Where the two copies agree\<close>








text \<open>Each condition of the amended claim excludes a difference between the copies: a
  line that starts with white space (the earlier copy does not trim before it looks for
  the markers), a metadata line without the shape (the earlier copy keeps it pending),
  and a metadata line that gives no title (only the revised copy has the placeholder;
  the input with the empty title above shows this difference).\<close>

lemma leading_space_differs:
  "parseM3U_first (js '' #EXTINF:-1,A\<newline>http://x/s'') = Inr [] \<and>
   parseM3U (js '' #EXTINF:-1,A\<newline>http://x/s'') =
     Inr [\<lparr>title = js ''A'', streamUrl = js ''http://x/s'', logo = None,
           groupTitle = js ''Uncategorized'', tvgId = None, rawAttributes = Map.empty\<rparr>]"
  by (simp add: eval_defs eval_defs_first)

lemma unshaped_differs:
  "parseM3U_first (js ''#EXTINF:-1 A\<newline>http://x/s'') =
     Inr [\<lparr>title = [], streamUrl = js ''http://x/s'', logo = None,
           groupTitle = js ''Uncategorized'', tvgId = None, rawAttributes = Map.empty\<rparr>] \<and>
   parseM3U (js ''#EXTINF:-1 A\<newline>http://x/s'') = Inr []"
  by (simp add: eval_defs eval_defs_first)

end
